theory Spec2Isabelle
  imports Main
begin

section \<open>Faults of the host language\<close>

text \<open>
  The engine defines no error type of its own: a missing dictionary key raises
  \<^verbatim>\<open>KeyError\<close> (carrying the key) and a list subscript outside the list raises
  \<^verbatim>\<open>IndexError\<close>. Both are values here; \<open>Inl\<close> is the raised fault.
\<close>

datatype error = KeyError string | IndexError

text \<open>
  Python's list subscript \<^verbatim>\<open>xs[i]\<close>: an index from \<open>0\<close> to \<open>len - 1\<close> reads that
  position, an index from \<open>-len\<close> to \<open>-1\<close> counts from the end, anything else raises.
\<close>

definition subscript :: "'a list \<Rightarrow> int \<Rightarrow> error + 'a" where
  "subscript xs i =
     (if 0 \<le> i \<and> i < int (length xs) then Inr (xs ! nat i)
      else if - int (length xs) \<le> i \<and> i < 0 then Inr (xs ! nat (int (length xs) + i))
      else Inl IndexError)"

text \<open>
  A bounds-checked subscript that faults on every index outside \<open>0 .. len - 1\<close>, also on
  the negative ones Python would wrap around. It is not what the engine runs; it is the
  yardstick against which the engine's own subscripts are measured.
\<close>

definition checked_subscript :: "'a list \<Rightarrow> int \<Rightarrow> error + 'a" where
  "checked_subscript xs i =
     (if 0 \<le> i \<and> i < int (length xs) then Inr (xs ! nat i) else Inl IndexError)"

section \<open>Feature bundles and segments\<close>

text \<open>
  A condition set and the \<^verbatim>\<open>applies\<close> entry of a rule are dictionaries from the keys
  \<^verbatim>\<open>positive\<close>, \<^verbatim>\<open>negative\<close>, \<^verbatim>\<open>zero\<close> to lists of feature labels; any key may be
  missing. \<open>dict_get\<close> is \<^verbatim>\<open>d.get(key, default)\<close>.
\<close>

type_synonym feature_dict = "string \<rightharpoonup> string list"

definition dict_get :: "('k \<rightharpoonup> 'v) \<Rightarrow> 'k \<Rightarrow> 'v \<Rightarrow> 'v" where
  "dict_get d k dflt = (case d k of None \<Rightarrow> dflt | Some v \<Rightarrow> v)"

text \<open>
  Modelled from the spec: the class \<^verbatim>\<open>Segment\<close> is imported by \<^verbatim>\<open>word.py\<close> from a
  module that is not part of the sources. The spec gives it three sets of feature
  labels.
\<close>

record segment =
  positive :: "string set"
  negative :: "string set"
  zero :: "string set"

text \<open>
  Modelled from the spec: the constructor of \<^verbatim>\<open>Segment\<close>, which is missing from the
  sources, takes three collections of labels and deduplicates them into sets.
\<close>

definition Segment :: "string list \<Rightarrow> string list \<Rightarrow> string list \<Rightarrow> segment" where
  "Segment p n z = \<lparr>positive = set p, negative = set n, zero = set z\<rparr>"

text \<open>
  Modelled from the spec: \<^verbatim>\<open>Segment.meets_conditions\<close>, missing from the sources. Every
  label the condition set asserts positive is in the segment's positive set, every label
  asserted negative in its negative set, every label asserted zero in its zero set;
  labels the condition set does not mention are unconstrained.
\<close>

definition meets_conditions :: "segment \<Rightarrow> feature_dict \<Rightarrow> bool" where
  "meets_conditions s c =
     (set (dict_get c ''positive'' []) \<subseteq> positive s \<and>
      set (dict_get c ''negative'' []) \<subseteq> negative s \<and>
      set (dict_get c ''zero'' []) \<subseteq> zero s)"

text \<open>
  Modelled from the spec: \<^verbatim>\<open>Segment.__add__\<close> (the spec's \<^verbatim>\<open>combine\<close>), missing from
  the sources. A label of the other segment takes the other segment's classification and
  leaves whichever set held it before; every other label stays where it was.
\<close>

definition combine :: "segment \<Rightarrow> segment \<Rightarrow> segment" where
  "combine s t =
     \<lparr>positive = (positive s - (negative t \<union> zero t)) \<union> positive t,
      negative = (negative s - (positive t \<union> zero t)) \<union> negative t,
      zero = (zero s - (positive t \<union> negative t)) \<union> zero t\<rparr>"

section \<open>Rules and words\<close>

text \<open>
  A rule is a dictionary; the engine consults six keys of it. A key that is absent is
  \<open>None\<close>. Of \<^verbatim>\<open>first\<close> and \<^verbatim>\<open>last\<close> only the presence is ever tested
  (\<^verbatim>\<open>'first' in rule\<close>), so \<open>Some False\<close> is a present key as much as \<open>Some True\<close>.
  The type \<open>'c\<close> is the type of condition sets, which the engine only hands on to
  \<^verbatim>\<open>meets_conditions\<close>.
\<close>

record 'c rule =
  conditions :: "'c option"
  first :: "bool option"
  last_flag :: "bool option"
  before :: "'c option"
  after :: "'c option"
  applies :: "feature_dict option"

record word =
  segments :: "segment list"

text \<open>
  \<^verbatim>\<open>Word.__key\<close> and \<^verbatim>\<open>Word.__eq__\<close>: a word is compared through the tuple of its
  segments' three label sets.
\<close>

definition key :: "word \<Rightarrow> (string set \<times> string set \<times> string set) list" where
  "key w = map (\<lambda>segment. (positive segment, negative segment, zero segment)) (segments w)"

definition word_eq :: "word \<Rightarrow> word \<Rightarrow> bool" where
  "word_eq w other = (key w = key other)"

section \<open>Matching a rule at a position\<close>

text \<open>
  \<^verbatim>\<open>Word.index_applicable\<close>, statement by statement. The two methods of the missing
  class \<^verbatim>\<open>Segment\<close> that \<^verbatim>\<open>word.py\<close> calls are parameters: \<open>mc\<close> stands for
  \<^verbatim>\<open>meets_conditions\<close>, and every result below holds for whatever it computes. The
  list subscript is a parameter as well, so that the function can be run both with
  Python's subscript and with the bounds-checked one.

  The order of evaluation is Python's: \<^verbatim>\<open>self.segments[index]\<close> is evaluated before
  \<^verbatim>\<open>rule['conditions']\<close>.
\<close>

definition index_applicable_with ::
  "(segment list \<Rightarrow> int \<Rightarrow> error + segment) \<Rightarrow> (segment \<Rightarrow> 'c \<Rightarrow> bool) \<Rightarrow>
   word \<Rightarrow> int \<Rightarrow> 'c rule \<Rightarrow> error + bool" where
  "index_applicable_with sub mc w index r =
     (case sub (segments w) index of
        Inl e \<Rightarrow> Inl e
      | Inr seg \<Rightarrow>
     (case conditions r of
        None \<Rightarrow> Inl (KeyError ''conditions'')
      | Some c \<Rightarrow>
     if \<not> mc seg c then Inr False
     else if first r \<noteq> None \<and> index \<noteq> 0 then Inr False
     else if last_flag r \<noteq> None \<and> index \<noteq> int (length (segments w)) - 1 then Inr False
     else
     (case
        (case before r of
           None \<Rightarrow> Inr True
         | Some b \<Rightarrow>
             if index = 0 then Inr False
             else (case sub (segments w) (index - 1) of
                     Inl e \<Rightarrow> Inl e
                   | Inr before_segment \<Rightarrow>
                       if \<not> mc before_segment b then Inr False else Inr True))
      of
        Inl e \<Rightarrow> Inl e
      | Inr False \<Rightarrow> Inr False
      | Inr True \<Rightarrow>
        (case after r of
           None \<Rightarrow> Inr True
         | Some a \<Rightarrow>
             if index = int (length (segments w)) - 1 then Inr False
             else (case sub (segments w) (index + 1) of
                     Inl e \<Rightarrow> Inl e
                   | Inr after_segment \<Rightarrow>
                       if \<not> mc after_segment a then Inr False else Inr True)))))"

definition index_applicable ::
  "(segment \<Rightarrow> 'c \<Rightarrow> bool) \<Rightarrow> word \<Rightarrow> int \<Rightarrow> 'c rule \<Rightarrow> error + bool" where
  "index_applicable mc w index r = index_applicable_with subscript mc w index r"

text \<open>
  What the specification says \<^verbatim>\<open>index_applicable\<close> decides at an in-range index, as a
  plain truth value: the base condition, the two positional flags and the two contexts.
\<close>

definition matches_at :: "(segment \<Rightarrow> 'c \<Rightarrow> bool) \<Rightarrow> word \<Rightarrow> int \<Rightarrow> 'c rule \<Rightarrow> 'c \<Rightarrow> bool" where
  "matches_at mc w i r c =
     (mc (segments w ! nat i) c \<and>
      (case first r of None \<Rightarrow> True | Some _ \<Rightarrow> i = 0) \<and>
      (case last_flag r of None \<Rightarrow> True | Some _ \<Rightarrow> i = int (length (segments w)) - 1) \<and>
      (case before r of None \<Rightarrow> True
       | Some b \<Rightarrow> 0 < i \<and> mc (segments w ! nat (i - 1)) b) \<and>
      (case after r of None \<Rightarrow> True
       | Some a \<Rightarrow> i < int (length (segments w)) - 1 \<and> mc (segments w ! nat (i + 1)) a))"

section \<open>Matching anywhere, and rewriting\<close>

text \<open>
  \<^verbatim>\<open>Word.applicable\<close> is \<^verbatim>\<open>any(...)\<close> over a generator: the indices are tried in
  order, the first match ends the scan with \<^verbatim>\<open>True\<close>, and a fault at an index ends it
  with that fault.
\<close>

fun any_index_applicable ::
  "(segment \<Rightarrow> 'c \<Rightarrow> bool) \<Rightarrow> word \<Rightarrow> 'c rule \<Rightarrow> nat list \<Rightarrow> error + bool" where
  "any_index_applicable mc w r [] = Inr False"
| "any_index_applicable mc w r (i # rest) =
     (case index_applicable mc w (int i) r of
        Inl e \<Rightarrow> Inl e
      | Inr True \<Rightarrow> Inr True
      | Inr False \<Rightarrow> any_index_applicable mc w r rest)"

definition applicable :: "(segment \<Rightarrow> 'c \<Rightarrow> bool) \<Rightarrow> word \<Rightarrow> 'c rule \<Rightarrow> error + bool" where
  "applicable mc w r = any_index_applicable mc w r [0..<length (segments w)]"

text \<open>
  The \<^verbatim>\<open>for\<close> loop of \<^verbatim>\<open>Word.apply_rule\<close> over the indices still to visit, with
  \<^verbatim>\<open>new_segments\<close> as the accumulator. \<open>cmb\<close> stands for \<^verbatim>\<open>Segment.__add__\<close>. As in
  the source, \<^verbatim>\<open>rule['applies']\<close> is looked up again at every matched index.
\<close>

fun apply_rule_loop ::
  "(segment \<Rightarrow> 'c \<Rightarrow> bool) \<Rightarrow> (segment \<Rightarrow> segment \<Rightarrow> segment) \<Rightarrow> word \<Rightarrow> 'c rule \<Rightarrow>
   segment \<Rightarrow> nat list \<Rightarrow> segment list \<Rightarrow> error + segment list" where
  "apply_rule_loop mc cmb w r rule_segment [] new_segments = Inr new_segments"
| "apply_rule_loop mc cmb w r rule_segment (i # rest) new_segments =
     (case index_applicable mc w (int i) r of
        Inl e \<Rightarrow> Inl e
      | Inr True \<Rightarrow>
          (case applies r of
             None \<Rightarrow> Inl (KeyError ''applies'')
           | Some ap \<Rightarrow>
               if ''deletion'' \<notin> set (dict_get ap ''positive'' []) then
                 (case subscript (segments w) (int i) of
                    Inl e \<Rightarrow> Inl e
                  | Inr s \<Rightarrow>
                      apply_rule_loop mc cmb w r rule_segment rest
                        (new_segments @ [cmb s rule_segment]))
               else apply_rule_loop mc cmb w r rule_segment rest new_segments)
      | Inr False \<Rightarrow>
          (case subscript (segments w) (int i) of
             Inl e \<Rightarrow> Inl e
           | Inr s \<Rightarrow> apply_rule_loop mc cmb w r rule_segment rest (new_segments @ [s])))"

definition apply_rule ::
  "(segment \<Rightarrow> 'c \<Rightarrow> bool) \<Rightarrow> (segment \<Rightarrow> segment \<Rightarrow> segment) \<Rightarrow> word \<Rightarrow> 'c rule \<Rightarrow>
   error + word" where
  "apply_rule mc cmb w r =
     (case applies r of
        None \<Rightarrow> Inl (KeyError ''applies'')
      | Some ap \<Rightarrow>
          (case apply_rule_loop mc cmb w r
                  (Segment (dict_get ap ''positive'' []) (dict_get ap ''negative'' [])
                     (dict_get ap ''zero'' []))
                  [0..<length (segments w)] []
           of
             Inl e \<Rightarrow> Inl e
           | Inr new_segments \<Rightarrow> Inr \<lparr>segments = new_segments\<rparr>))"

section \<open>The specification's account of rewriting\<close>

text \<open>
  The description of \<^verbatim>\<open>apply_rule\<close> in the specification, in its own words: one
  transformation segment built from the three lists of \<^verbatim>\<open>applies\<close>, and for every
  index what it contributes to the output sequence.
\<close>

definition transformation_segment :: "feature_dict \<Rightarrow> segment" where
  "transformation_segment ap =
     Segment (dict_get ap ''positive'' []) (dict_get ap ''negative'' [])
       (dict_get ap ''zero'' [])"

definition is_deletion :: "feature_dict \<Rightarrow> bool" where
  "is_deletion ap = (''deletion'' \<in> set (dict_get ap ''positive'' []))"

definition matched :: "(segment \<Rightarrow> 'c \<Rightarrow> bool) \<Rightarrow> word \<Rightarrow> 'c rule \<Rightarrow> nat \<Rightarrow> bool" where
  "matched mc w r i = (index_applicable mc w (int i) r = Inr True)"

definition contribution ::
  "(segment \<Rightarrow> 'c \<Rightarrow> bool) \<Rightarrow> (segment \<Rightarrow> segment \<Rightarrow> segment) \<Rightarrow> word \<Rightarrow> 'c rule \<Rightarrow>
   feature_dict \<Rightarrow> nat \<Rightarrow> segment list" where
  "contribution mc cmb w r ap i =
     (if matched mc w r i then
        (if is_deletion ap then [] else [cmb (segments w ! i) (transformation_segment ap)])
      else [segments w ! i])"

definition apply_rule_spec ::
  "(segment \<Rightarrow> 'c \<Rightarrow> bool) \<Rightarrow> (segment \<Rightarrow> segment \<Rightarrow> segment) \<Rightarrow> word \<Rightarrow> 'c rule \<Rightarrow>
   feature_dict \<Rightarrow> word" where
  "apply_rule_spec mc cmb w r ap =
     \<lparr>segments = concat (map (contribution mc cmb w r ap) [0..<length (segments w)])\<rparr>"

text \<open>The number of indices of a word at which a rule matches.\<close>

definition match_count :: "(segment \<Rightarrow> 'c \<Rightarrow> bool) \<Rightarrow> word \<Rightarrow> 'c rule \<Rightarrow> nat" where
  "match_count mc w r = length (filter (matched mc w r) [0..<length (segments w)])"

section \<open>Concrete words and rules\<close>

text \<open>
  The scenarios of the specification: a word of a voiced and a voiceless segment, the
  devoicing rule, a deletion rule that matches the voiceless segment only, and a rule
  restricted to the last position. A three-segment word and rules with contexts and
  positional flags exercise the remaining branches.
\<close>

definition voiced :: segment where
  "voiced = Segment [''voiced''] [] []"

definition voiceless :: segment where
  "voiceless = Segment [] [''voiced''] []"

definition two_segments :: word where
  "two_segments = \<lparr>segments = [voiced, voiceless]\<rparr>"

definition three_segments :: word where
  "three_segments = \<lparr>segments = [voiced, voiceless, voiced]\<rparr>"

definition empty_word :: word where
  "empty_word = \<lparr>segments = []\<rparr>"

definition devoicing :: "feature_dict rule" where
  "devoicing =
     \<lparr>conditions = Some [''positive'' \<mapsto> [''voiced'']], first = None, last_flag = None,
      before = None, after = None, applies = Some [''negative'' \<mapsto> [''voiced'']]\<rparr>"

definition delete_voiceless :: "feature_dict rule" where
  "delete_voiceless =
     \<lparr>conditions = Some [''negative'' \<mapsto> [''voiced'']], first = None, last_flag = None,
      before = None, after = None, applies = Some [''positive'' \<mapsto> [''deletion'']]\<rparr>"

definition delete_and_nasalise :: "feature_dict rule" where
  "delete_and_nasalise =
     \<lparr>conditions = Some [''negative'' \<mapsto> [''voiced'']], first = None, last_flag = None,
      before = None, after = None,
      applies = Some [''positive'' \<mapsto> [''nasal'', ''deletion''], ''zero'' \<mapsto> [''voiced'']]\<rparr>"

definition last_voiced :: "feature_dict rule" where
  "last_voiced =
     \<lparr>conditions = Some [''positive'' \<mapsto> [''voiced'']], first = None, last_flag = Some True,
      before = None, after = None, applies = Some [''negative'' \<mapsto> [''voiced'']]\<rparr>"

definition first_voiced :: "feature_dict rule" where
  "first_voiced =
     \<lparr>conditions = Some [''positive'' \<mapsto> [''voiced'']], first = Some True, last_flag = None,
      before = None, after = None, applies = Some [''negative'' \<mapsto> [''voiced'']]\<rparr>"

definition intervocalic_voicing :: "feature_dict rule" where
  "intervocalic_voicing =
     \<lparr>conditions = Some [''negative'' \<mapsto> [''voiced'']], first = None, last_flag = None,
      before = Some [''positive'' \<mapsto> [''voiced'']],
      after = Some [''positive'' \<mapsto> [''voiced'']],
      applies = Some [''positive'' \<mapsto> [''voiced'']]\<rparr>"

definition no_conditions :: "feature_dict rule" where
  "no_conditions =
     \<lparr>conditions = None, first = None, last_flag = None, before = None, after = None,
      applies = Some [''negative'' \<mapsto> [''voiced'']]\<rparr>"

definition no_applies :: "feature_dict rule" where
  "no_applies =
     \<lparr>conditions = Some [''positive'' \<mapsto> [''voiced'']], first = None, last_flag = None,
      before = None, after = None, applies = None\<rparr>"

section \<open>Subscripts\<close>

lemma subscript_in_range:
  "0 \<le> i \<Longrightarrow> i < int (length xs) \<Longrightarrow> subscript xs i = Inr (xs ! nat i)"
  by (simp add: subscript_def)

lemma subscript_nat: "i < length xs \<Longrightarrow> subscript xs (int i) = Inr (xs ! i)"
  by (simp add: subscript_def)

lemma subscript_wraps:
  "- int (length xs) \<le> i \<Longrightarrow> i < int (length xs) \<Longrightarrow> \<exists>x. subscript xs i = Inr x"
  by (simp add: subscript_def)

lemma checked_subscript_in_range:
  "0 \<le> i \<Longrightarrow> i < int (length xs) \<Longrightarrow> checked_subscript xs i = Inr (xs ! nat i)"
  by (simp add: checked_subscript_def)

section \<open>Matching at an in-range index\<close>

lemma index_applicable_with_in_range:
  assumes sub: "\<And>j. 0 \<le> j \<Longrightarrow> j < int (length (segments w)) \<Longrightarrow>
                  sub (segments w) j = Inr (segments w ! nat j)"
    and c: "conditions r = Some c"
    and i: "0 \<le> i" "i < int (length (segments w))"
  shows "index_applicable_with sub mc w i r = Inr (matches_at mc w i r c)"
proof -
  have here: "sub (segments w) i = Inr (segments w ! nat i)"
    using sub i by simp
  have left: "i \<noteq> 0 \<longrightarrow> sub (segments w) (i - 1) = Inr (segments w ! nat (i - 1))"
    using sub [of "i - 1"] i by simp
  have right: "i \<noteq> int (length (segments w)) - 1 \<longrightarrow>
               sub (segments w) (i + 1) = Inr (segments w ! nat (i + 1))"
    using sub [of "i + 1"] i by simp
  show ?thesis
    using i here left right c
    unfolding index_applicable_with_def matches_at_def
    by (auto split: option.splits)
qed

lemma index_applicable_in_range:
  assumes "conditions r = Some c" "0 \<le> i" "i < int (length (segments w))"
  shows "index_applicable mc w i r = Inr (matches_at mc w i r c)"
  unfolding index_applicable_def
  by (rule index_applicable_with_in_range) (simp_all add: subscript_in_range assms)

lemma index_applicable_nat:
  assumes "conditions r = Some c" "i < length (segments w)"
  shows "index_applicable mc w (int i) r = Inr (matches_at mc w (int i) r c)"
  using assms by (simp add: index_applicable_in_range)

lemma index_applicable_checked:
  assumes "conditions r = Some c" "0 \<le> i" "i < int (length (segments w))"
  shows "index_applicable_with checked_subscript mc w i r = Inr (matches_at mc w i r c)"
  by (rule index_applicable_with_in_range) (simp_all add: checked_subscript_in_range assms)

lemma index_applicable_with_no_conditions:
  assumes "conditions r = None"
  shows "index_applicable_with sub mc w i r =
           (case sub (segments w) i of Inl e \<Rightarrow> Inl e | Inr s \<Rightarrow> Inl (KeyError ''conditions''))"
  using assms by (simp add: index_applicable_with_def split: sum.splits)

lemma index_applicable_with_same_keys:
  assumes "conditions r' = conditions r" "first r' = first r" "last_flag r' = last_flag r"
    "before r' = before r" "after r' = after r"
  shows "index_applicable_with sub mc w i r' = index_applicable_with sub mc w i r"
  unfolding index_applicable_with_def assms ..

lemma index_applicable_ignores_applies:
  "index_applicable mc w i (r\<lparr>applies := a\<rparr>) = index_applicable mc w i r"
  unfolding index_applicable_def
  by (rule index_applicable_with_same_keys) simp_all

text \<open>The four early exits, at any index and for any rule.\<close>

lemma first_exit:
  "first r \<noteq> None \<Longrightarrow> i \<noteq> 0 \<Longrightarrow> index_applicable_with sub mc w i r \<noteq> Inr True"
  by (auto simp: index_applicable_with_def split: sum.splits option.splits)

lemma last_exit:
  "last_flag r \<noteq> None \<Longrightarrow> i \<noteq> int (length (segments w)) - 1 \<Longrightarrow>
     index_applicable_with sub mc w i r \<noteq> Inr True"
  by (auto simp: index_applicable_with_def split: sum.splits option.splits)

lemma before_exit:
  "before r \<noteq> None \<Longrightarrow> index_applicable_with sub mc w 0 r \<noteq> Inr True"
  by (auto simp: index_applicable_with_def split: sum.splits option.splits)

lemma after_exit:
  "after r \<noteq> None \<Longrightarrow>
     index_applicable_with sub mc w (int (length (segments w)) - 1) r \<noteq> Inr True"
  by (auto simp: index_applicable_with_def split: sum.splits option.splits bool.splits if_splits)


section \<open>The scan of \<open>applicable\<close>\<close>

lemma any_index_applicable_exists:
  assumes "\<forall>i \<in> set idxs. \<exists>b. index_applicable mc w (int i) r = Inr b"
  shows "any_index_applicable mc w r idxs = Inr (\<exists>i \<in> set idxs. matched mc w r i)"
  using assms
proof (induction idxs)
  case Nil
  then show ?case by simp
next
  case (Cons i rest)
  then obtain b where b: "index_applicable mc w (int i) r = Inr b"
    by auto
  have rest: "any_index_applicable mc w r rest = Inr (\<exists>i \<in> set rest. matched mc w r i)"
    using Cons by simp
  show ?case
    by (cases b) (simp_all add: b rest matched_def)
qed

section \<open>The loop of \<open>apply_rule\<close>\<close>

lemma apply_rule_loop_contributions:
  assumes ap: "applies r = Some ap"
    and rs: "rule_segment = transformation_segment ap"
    and range: "\<forall>i \<in> set idxs. i < length (segments w) \<and>
                  (\<exists>b. index_applicable mc w (int i) r = Inr b)"
  shows "apply_rule_loop mc cmb w r rule_segment idxs acc =
           Inr (acc @ concat (map (contribution mc cmb w r ap) idxs))"
  using range
proof (induction idxs arbitrary: acc)
  case Nil
  then show ?case by simp
next
  case (Cons i rest)
  then have i: "i < length (segments w)" by simp
  from Cons.prems obtain b where b: "index_applicable mc w (int i) r = Inr b"
    by auto
  have IH: "\<And>acc. apply_rule_loop mc cmb w r rule_segment rest acc =
           Inr (acc @ concat (map (contribution mc cmb w r ap) rest))"
    using Cons by simp
  have head: "contribution mc cmb w r ap i =
      (if b then
         (if ''deletion'' \<in> set (dict_get ap ''positive'' []) then []
          else [cmb (segments w ! i) rule_segment])
       else [segments w ! i])"
    by (simp add: contribution_def matched_def is_deletion_def b rs)
  show ?case
    by (cases b) (simp_all add: b IH ap subscript_nat [OF i] head)
qed

lemma apply_rule_returns_spec:
  assumes "applies r = Some ap"
    and "\<forall>i < length (segments w). \<exists>b. index_applicable mc w (int i) r = Inr b"
  shows "apply_rule mc cmb w r = Inr (apply_rule_spec mc cmb w r ap)"
proof -
  have "apply_rule_loop mc cmb w r (transformation_segment ap) [0..<length (segments w)] [] =
          Inr ([] @ concat (map (contribution mc cmb w r ap) [0..<length (segments w)]))"
    using assms by (intro apply_rule_loop_contributions) simp_all
  then show ?thesis
    using assms(1)
    by (simp add: apply_rule_def apply_rule_spec_def transformation_segment_def)
qed

lemma index_applicable_returns:
  assumes "conditions r = Some c"
  shows "\<forall>i < length (segments w). \<exists>b. index_applicable mc w (int i) r = Inr b"
  using assms by (simp add: index_applicable_nat)

lemma apply_rule_refines:
  assumes "conditions r = Some c" "applies r = Some ap"
  shows "apply_rule mc cmb w r = Inr (apply_rule_spec mc cmb w r ap)"
  using assms by (intro apply_rule_returns_spec index_applicable_returns)

text \<open>The output sequence of a deletion rule, of a merging rule, and of a rule that matches nowhere.\<close>

lemma contributions_deletion:
  assumes "is_deletion ap"
  shows "concat (map (contribution mc cmb w r ap) idxs) =
           map (\<lambda>i. segments w ! i) (filter (\<lambda>i. \<not> matched mc w r i) idxs)"
  using assms by (induction idxs) (simp_all add: contribution_def)

lemma contributions_merge:
  assumes "\<not> is_deletion ap"
  shows "concat (map (contribution mc cmb w r ap) idxs) =
           map (\<lambda>i. if matched mc w r i then cmb (segments w ! i) (transformation_segment ap)
                     else segments w ! i) idxs"
  using assms by (induction idxs) (simp_all add: contribution_def)

lemma contributions_no_match:
  assumes "\<forall>i \<in> set idxs. \<not> matched mc w r i"
  shows "concat (map (contribution mc cmb w r ap) idxs) = map (\<lambda>i. segments w ! i) idxs"
  using assms by (induction idxs) (simp_all add: contribution_def)

lemma map_nth_upt: "map (\<lambda>i. xs ! i) [0..<length xs] = xs"
  by (simp add: map_nth)

lemma length_filter_not:
  "length (filter (\<lambda>i. \<not> P i) xs) = length xs - length (filter P xs)"
proof -
  have "length (filter P xs) + length (filter (\<lambda>i. \<not> P i) xs) = length xs"
    by (rule sum_length_filter_compl)
  then show ?thesis by simp
qed

lemma match_count_card:
  "match_count mc w r =
     card {i. i < length (segments w) \<and> index_applicable mc w (int i) r = Inr True}"
proof -
  let ?matches = "filter (matched mc w r) [0..<length (segments w)]"
  have "{i. i < length (segments w) \<and> index_applicable mc w (int i) r = Inr True} =
        set ?matches"
    by (auto simp: matched_def)
  then have "card {i. i < length (segments w) \<and> index_applicable mc w (int i) r = Inr True} =
        card (set ?matches)"
    by (rule arg_cong)
  also have "\<dots> = length ?matches"
    by (rule distinct_card) simp
  finally show ?thesis
    by (simp add: match_count_def)
qed

lemmas scenario_defs = voiced_def voiceless_def two_segments_def three_segments_def
  empty_word_def devoicing_def delete_voiceless_def delete_and_nasalise_def last_voiced_def
  first_voiced_def intervocalic_voicing_def no_conditions_def no_applies_def

lemmas engine_defs = index_applicable_def index_applicable_with_def subscript_def
  checked_subscript_def meets_conditions_def dict_get_def Segment_def combine_def
  applicable_def apply_rule_def

section \<open>Properties of the engine\<close>

text \<open>
  C1. At an index of the word, and for a rule with the key \<^verbatim>\<open>conditions\<close>,
  \<^verbatim>\<open>index_applicable\<close> returns a truth value, and it is true exactly when the segment
  meets the conditions, the index is 0 if \<^verbatim>\<open>first\<close> is present, the index is the last
  one if \<^verbatim>\<open>last\<close> is present, there is a preceding segment and it meets
  \<^verbatim>\<open>before\<close> if that key is present, and there is a following segment and it meets
  \<^verbatim>\<open>after\<close> if that key is present.
\<close>

theorem index_applicable_characterised:
  assumes "conditions r = Some c" and "0 \<le> i" and "i < int (length (segments w))"
  shows "index_applicable mc w i r =
           Inr (mc (segments w ! nat i) c \<and>
                (first r \<noteq> None \<longrightarrow> i = 0) \<and>
                (last_flag r \<noteq> None \<longrightarrow> i = int (length (segments w)) - 1) \<and>
                (\<forall>b. before r = Some b \<longrightarrow> 0 < i \<and> mc (segments w ! nat (i - 1)) b) \<and>
                (\<forall>a. after r = Some a \<longrightarrow>
                   i < int (length (segments w)) - 1 \<and> mc (segments w ! nat (i + 1)) a))"
proof -
  have "index_applicable mc w i r = Inr (matches_at mc w i r c)"
    using assms by (rule index_applicable_in_range)
  also have "matches_at mc w i r c =
          (mc (segments w ! nat i) c \<and>
           (first r \<noteq> None \<longrightarrow> i = 0) \<and>
           (last_flag r \<noteq> None \<longrightarrow> i = int (length (segments w)) - 1) \<and>
           (\<forall>b. before r = Some b \<longrightarrow> 0 < i \<and> mc (segments w ! nat (i - 1)) b) \<and>
           (\<forall>a. after r = Some a \<longrightarrow>
              i < int (length (segments w)) - 1 \<and> mc (segments w ! nat (i + 1)) a))"
    unfolding matches_at_def by (auto split: option.splits)
  finally show ?thesis .
qed

theorem index_applicable_characterised_witness:
  "conditions intervocalic_voicing = Some [''negative'' \<mapsto> [''voiced'']] \<and>
   (0::int) \<le> 1 \<and> 1 < int (length (segments three_segments)) \<and>
   index_applicable meets_conditions three_segments 1 intervocalic_voicing = Inr True \<and>
   index_applicable meets_conditions three_segments 1 first_voiced = Inr False"
proof -
  have c: "conditions intervocalic_voicing = Some [''negative'' \<mapsto> [''voiced'']]"
    by (simp add: scenario_defs)
  have lo: "(0::int) \<le> 1" by simp
  have hi: "1 < int (length (segments three_segments))"
    by (simp add: scenario_defs)
  show ?thesis
    using index_applicable_characterised [OF c lo hi, of meets_conditions]
    by (simp add: scenario_defs engine_defs)
qed

text \<open>
  C2. For a rule with the keys \<^verbatim>\<open>conditions\<close> and \<^verbatim>\<open>applies\<close>, \<^verbatim>\<open>apply_rule\<close>
  returns the word the specification describes: one transformation segment built from
  the three lists of \<^verbatim>\<open>applies\<close> (a missing list is empty), and, index by index in
  order, nothing for a matched index of a deletion rule, the combined segment for a
  matched index otherwise, and the segment itself for an unmatched index.
\<close>

theorem apply_rule_as_specified:
  assumes "conditions r = Some c" and "applies r = Some ap"
  shows "apply_rule mc cmb w r = Inr (apply_rule_spec mc cmb w r ap)"
  using assms by (rule apply_rule_refines)

theorem apply_rule_as_specified_witness:
  "conditions devoicing = Some [''positive'' \<mapsto> [''voiced'']] \<and>
   applies devoicing = Some [''negative'' \<mapsto> [''voiced'']] \<and>
   apply_rule meets_conditions combine two_segments devoicing =
     Inr \<lparr>segments = [voiceless, voiceless]\<rparr> \<and>
   apply_rule_spec meets_conditions combine two_segments devoicing
     [''negative'' \<mapsto> [''voiced'']] = \<lparr>segments = [voiceless, voiceless]\<rparr>"
proof -
  have c: "conditions devoicing = Some [''positive'' \<mapsto> [''voiced'']]"
    by (simp add: scenario_defs)
  have ap: "applies devoicing = Some [''negative'' \<mapsto> [''voiced'']]"
    by (simp add: scenario_defs)
  have run: "apply_rule meets_conditions combine two_segments devoicing =
     Inr \<lparr>segments = [voiceless, voiceless]\<rparr>"
    by (simp add: scenario_defs engine_defs upt_rec)
  show ?thesis
    using apply_rule_as_specified [OF c ap, of meets_conditions combine two_segments] c ap run
    by simp
qed

text \<open>
  C3. When the positive list of \<^verbatim>\<open>applies\<close> contains the label \<^verbatim>\<open>deletion\<close>, the
  output of \<^verbatim>\<open>apply_rule\<close> is the input's segments at the indices that do not match,
  in order: every matched segment is removed and none is merged. The output mentions
  neither \<^verbatim>\<open>applies\<close> nor the merge operation, and it is the same for every other
  content of \<^verbatim>\<open>applies\<close> that has the label in its positive list.
\<close>

theorem deletion_discards_merge:
  assumes "conditions r = Some c" and "applies r = Some ap" and "is_deletion ap"
  shows "apply_rule mc cmb w r =
           Inr \<lparr>segments = map (\<lambda>i. segments w ! i)
                   (filter (\<lambda>i. index_applicable mc w (int i) r \<noteq> Inr True)
                      [0..<length (segments w)])\<rparr> \<and>
         (\<forall>cmb' ap'. is_deletion ap' \<longrightarrow>
            apply_rule mc cmb' w (r\<lparr>applies := Some ap'\<rparr>) = apply_rule mc cmb w r)"
proof -
  let ?kept = "map (\<lambda>i. segments w ! i)
                 (filter (\<lambda>i. index_applicable mc w (int i) r \<noteq> Inr True)
                    [0..<length (segments w)])"
  have kept: "\<And>cmb' r' ap'. is_deletion ap' \<Longrightarrow>
         matched mc w r' = matched mc w r \<Longrightarrow>
         apply_rule_spec mc cmb' w r' ap' = \<lparr>segments = ?kept\<rparr>"
    by (simp add: apply_rule_spec_def contributions_deletion) (simp add: matched_def)
  have here: "apply_rule mc cmb w r = Inr \<lparr>segments = ?kept\<rparr>"
    using assms by (simp add: apply_rule_refines [where c = c and ap = ap] kept)
  have there: "apply_rule mc cmb' w (r\<lparr>applies := Some ap'\<rparr>) = Inr \<lparr>segments = ?kept\<rparr>"
    if "is_deletion ap'" for cmb' ap'
  proof -
    have same: "matched mc w (r\<lparr>applies := Some ap'\<rparr>) = matched mc w r"
      by (rule ext) (simp add: matched_def index_applicable_ignores_applies)
    have "apply_rule mc cmb' w (r\<lparr>applies := Some ap'\<rparr>) =
            Inr (apply_rule_spec mc cmb' w (r\<lparr>applies := Some ap'\<rparr>) ap')"
      using assms(1) by (intro apply_rule_refines [where c = c]) simp_all
    then show ?thesis
      using that same by (simp add: kept)
  qed
  show ?thesis
    using here there by simp
qed

theorem deletion_discards_merge_witness:
  "conditions delete_and_nasalise = Some [''negative'' \<mapsto> [''voiced'']] \<and>
   applies delete_and_nasalise =
     Some [''positive'' \<mapsto> [''nasal'', ''deletion''], ''zero'' \<mapsto> [''voiced'']] \<and>
   is_deletion [''positive'' \<mapsto> [''nasal'', ''deletion''], ''zero'' \<mapsto> [''voiced'']] \<and>
   apply_rule meets_conditions combine two_segments delete_and_nasalise =
     Inr \<lparr>segments = [voiced]\<rparr> \<and>
   apply_rule meets_conditions combine two_segments delete_voiceless =
     apply_rule meets_conditions combine two_segments delete_and_nasalise"
proof -
  let ?ap = "[''positive'' \<mapsto> [''nasal'', ''deletion''], ''zero'' \<mapsto> [''voiced'']]"
  have c: "conditions delete_and_nasalise = Some [''negative'' \<mapsto> [''voiced'']]"
    by (simp add: scenario_defs)
  have ap: "applies delete_and_nasalise = Some ?ap"
    by (simp add: scenario_defs)
  have d: "is_deletion ?ap"
    by (simp add: is_deletion_def dict_get_def)
  have d': "is_deletion [''positive'' \<mapsto> [''deletion'']]"
    by (simp add: is_deletion_def dict_get_def)
  have r': "delete_and_nasalise\<lparr>applies := Some [''positive'' \<mapsto> [''deletion'']]\<rparr> =
            delete_voiceless"
    by (simp add: scenario_defs)
  have run: "apply_rule meets_conditions combine two_segments delete_and_nasalise =
     Inr \<lparr>segments = [voiced]\<rparr>"
    by (simp add: scenario_defs engine_defs upt_rec)
  from deletion_discards_merge [OF c ap d, of meets_conditions combine two_segments]
  have "apply_rule meets_conditions combine two_segments
          (delete_and_nasalise\<lparr>applies := Some [''positive'' \<mapsto> [''deletion'']]\<rparr>) =
        apply_rule meets_conditions combine two_segments delete_and_nasalise"
    using d' by blast
  then show ?thesis
    using c ap d run by (simp only: r' simp_thms)
qed

text \<open>
  C4. When \<^verbatim>\<open>index_applicable\<close> is false at every index of the word, \<^verbatim>\<open>apply_rule\<close>
  returns a word equal to the receiver under \<^verbatim>\<open>Word.__eq__\<close>: the same length and, position by
  position, the same three label sets. The rule has its \<^verbatim>\<open>applies\<close> key, which
  \<^verbatim>\<open>apply_rule\<close> reads before the loop.
\<close>

theorem no_match_identity:
  assumes "applies r = Some ap"
    and "\<forall>i < length (segments w). index_applicable mc w (int i) r = Inr False"
  shows "\<exists>w'. apply_rule mc cmb w r = Inr w' \<and> word_eq w' w \<and> segments w' = segments w"
proof -
  have returns: "\<forall>i < length (segments w). \<exists>b. index_applicable mc w (int i) r = Inr b"
    using assms(2) by blast
  have nowhere: "\<forall>i \<in> set [0..<length (segments w)]. \<not> matched mc w r i"
    using assms(2) by (simp add: matched_def)
  have "apply_rule mc cmb w r = Inr (apply_rule_spec mc cmb w r ap)"
    using assms(1) returns by (rule apply_rule_returns_spec)
  moreover have "segments (apply_rule_spec mc cmb w r ap) = segments w"
    by (simp add: apply_rule_spec_def contributions_no_match [OF nowhere] map_nth_upt)
  ultimately show ?thesis
    by (simp add: word_eq_def key_def)
qed

theorem no_match_identity_witness:
  "applies last_voiced = Some [''negative'' \<mapsto> [''voiced'']] \<and>
   length (segments two_segments) = 2 \<and>
   index_applicable meets_conditions two_segments (int 0) last_voiced = Inr False \<and>
   index_applicable meets_conditions two_segments (int 1) last_voiced = Inr False \<and>
   apply_rule meets_conditions combine two_segments last_voiced = Inr two_segments \<and>
   (\<exists>w'. apply_rule meets_conditions combine two_segments last_voiced = Inr w' \<and>
         word_eq w' two_segments)"
proof -
  have ap: "applies last_voiced = Some [''negative'' \<mapsto> [''voiced'']]"
    by (simp add: scenario_defs)
  have n: "length (segments two_segments) = 2"
    by (simp add: scenario_defs)
  have at0: "index_applicable meets_conditions two_segments (int 0) last_voiced = Inr False"
    by (simp add: scenario_defs engine_defs)
  have at1: "index_applicable meets_conditions two_segments (int 1) last_voiced = Inr False"
    by (simp add: scenario_defs engine_defs)
  have nowhere: "\<forall>i < length (segments two_segments).
      index_applicable meets_conditions two_segments (int i) last_voiced = Inr False"
    using at0 at1 by (simp add: n less_Suc_eq numeral_2_eq_2)
  have run: "apply_rule meets_conditions combine two_segments last_voiced = Inr two_segments"
    by (simp add: scenario_defs engine_defs upt_rec)
  show ?thesis
    using no_match_identity [OF ap nowhere, of combine] ap n at0 at1 run
    by auto
qed

text \<open>
  C5. For a rule with \<^verbatim>\<open>deletion\<close> in the positive list of \<^verbatim>\<open>applies\<close> that matches at
  exactly \<open>k\<close> of the \<open>n\<close> indices of a word, \<^verbatim>\<open>apply_rule\<close> returns a word of length
  \<open>n - k\<close>; when it matches at every index the result is the empty word.
\<close>

theorem deletion_shrinks:
  assumes "conditions r = Some c" and "applies r = Some ap" and "is_deletion ap"
    and "card {i. i < length (segments w) \<and> index_applicable mc w (int i) r = Inr True} = k"
  shows "\<exists>w'. apply_rule mc cmb w r = Inr w' \<and>
              length (segments w') = length (segments w) - k \<and>
              ((\<forall>i < length (segments w). index_applicable mc w (int i) r = Inr True) \<longrightarrow>
                 segments w' = [])"
proof -
  let ?out = "concat (map (contribution mc cmb w r ap) [0..<length (segments w)])"
  have out: "?out = map (\<lambda>i. segments w ! i)
                      (filter (\<lambda>i. \<not> matched mc w r i) [0..<length (segments w)])"
    using assms(3) by (rule contributions_deletion)
  have k: "match_count mc w r = k"
    using assms(4) by (simp add: match_count_card)
  have len: "length ?out = length (segments w) - k"
    unfolding out using k by (simp add: length_filter_not match_count_def)
  have all: "?out = []" if "\<forall>i < length (segments w). index_applicable mc w (int i) r = Inr True"
    unfolding out using that by (simp add: matched_def filter_empty_conv)
  have "apply_rule mc cmb w r = Inr \<lparr>segments = ?out\<rparr>"
    using assms(1,2) by (simp add: apply_rule_refines [where c = c and ap = ap] apply_rule_spec_def)
  then show ?thesis
    using len all by simp
qed

theorem deletion_shrinks_witness:
  "conditions delete_voiceless = Some [''negative'' \<mapsto> [''voiced'']] \<and>
   applies delete_voiceless = Some [''positive'' \<mapsto> [''deletion'']] \<and>
   is_deletion [''positive'' \<mapsto> [''deletion'']] \<and>
   card {i. i < length (segments two_segments) \<and>
            index_applicable meets_conditions two_segments (int i) delete_voiceless = Inr True} = 1 \<and>
   (\<exists>w'. apply_rule meets_conditions combine two_segments delete_voiceless = Inr w' \<and>
         length (segments w') = 1)"
proof -
  have c: "conditions delete_voiceless = Some [''negative'' \<mapsto> [''voiced'']]"
    by (simp add: scenario_defs)
  have ap: "applies delete_voiceless = Some [''positive'' \<mapsto> [''deletion'']]"
    by (simp add: scenario_defs)
  have d: "is_deletion [''positive'' \<mapsto> [''deletion'']]"
    by (simp add: is_deletion_def dict_get_def)
  have "match_count meets_conditions two_segments delete_voiceless = 1"
    by (simp add: match_count_def matched_def scenario_defs engine_defs upt_rec)
  then have k: "card {i. i < length (segments two_segments) \<and>
            index_applicable meets_conditions two_segments (int i) delete_voiceless = Inr True} = 1"
    by (simp add: match_count_card)
  have n: "length (segments two_segments) = 2"
    by (simp add: scenario_defs)
  show ?thesis
    using deletion_shrinks [OF c ap d k, of combine] c ap d k
    by (auto simp: n)
qed

text \<open>
  C6. A rule with the key \<^verbatim>\<open>first\<close> matches at no index other than 0, and a rule with
  the key \<^verbatim>\<open>last\<close> at no index other than the last one, whatever the length of the
  word: \<^verbatim>\<open>index_applicable\<close> is never true there, for any integer index and any rule,
  and at an index of the word it returns false when the rule has its conditions.
\<close>

theorem first_last_exclusive:
  "(first r \<noteq> None \<and> i \<noteq> 0 \<longrightarrow> index_applicable mc w i r \<noteq> Inr True) \<and>
   (last_flag r \<noteq> None \<and> i \<noteq> int (length (segments w)) - 1 \<longrightarrow>
      index_applicable mc w i r \<noteq> Inr True) \<and>
   (conditions r \<noteq> None \<and> 0 \<le> i \<and> i < int (length (segments w)) \<longrightarrow>
      (first r \<noteq> None \<and> i \<noteq> 0 \<longrightarrow> index_applicable mc w i r = Inr False) \<and>
      (last_flag r \<noteq> None \<and> i \<noteq> int (length (segments w)) - 1 \<longrightarrow>
         index_applicable mc w i r = Inr False))"
proof -
  have never_first: "first r \<noteq> None \<and> i \<noteq> 0 \<longrightarrow> index_applicable mc w i r \<noteq> Inr True"
    by (simp add: index_applicable_def first_exit)
  have never_last: "last_flag r \<noteq> None \<and> i \<noteq> int (length (segments w)) - 1 \<longrightarrow>
      index_applicable mc w i r \<noteq> Inr True"
    by (simp add: index_applicable_def last_exit)
  have returns: "\<exists>b. index_applicable mc w i r = Inr b"
    if "conditions r \<noteq> None" "0 \<le> i" "i < int (length (segments w))"
    using that by (auto simp: index_applicable_in_range)
  show ?thesis
    using never_first never_last returns by (metis (full_types))
qed

theorem first_last_exclusive_witness:
  "first first_voiced \<noteq> None \<and> (2::int) \<noteq> 0 \<and>
   index_applicable meets_conditions three_segments 2 first_voiced = Inr False \<and>
   last_flag last_voiced \<noteq> None \<and> (0::int) \<noteq> int (length (segments three_segments)) - 1 \<and>
   index_applicable meets_conditions three_segments 0 last_voiced = Inr False \<and>
   index_applicable meets_conditions three_segments 0 first_voiced = Inr True \<and>
   index_applicable meets_conditions three_segments 2 last_voiced = Inr True"
proof -
  have f: "index_applicable meets_conditions three_segments 2 first_voiced = Inr False"
    using first_last_exclusive [of first_voiced 2 meets_conditions three_segments]
    by (simp add: scenario_defs)
  have l: "index_applicable meets_conditions three_segments 0 last_voiced = Inr False"
    using first_last_exclusive [of last_voiced 0 meets_conditions three_segments]
    by (simp add: scenario_defs)
  show ?thesis
    using f l by (simp add: scenario_defs engine_defs)
qed

text \<open>
  C7. A rule with the key \<^verbatim>\<open>before\<close> never matches at index 0 and a rule with the key
  \<^verbatim>\<open>after\<close> never matches at the last index; on a word that has these positions the
  result there is false. Consequently, at every index of the word the subscripts that
  \<^verbatim>\<open>index_applicable\<close> evaluates lie inside the word: running it with the bounds-checked
  subscript, which faults on every index outside \<open>0 .. len - 1\<close>, gives the same result,
  and that result is never an \<^verbatim>\<open>IndexError\<close>.
\<close>

theorem context_boundary:
  "(before r \<noteq> None \<longrightarrow> index_applicable mc w 0 r \<noteq> Inr True) \<and>
   (after r \<noteq> None \<longrightarrow>
      index_applicable mc w (int (length (segments w)) - 1) r \<noteq> Inr True) \<and>
   (conditions r \<noteq> None \<and> segments w \<noteq> [] \<longrightarrow>
      (before r \<noteq> None \<longrightarrow> index_applicable mc w 0 r = Inr False) \<and>
      (after r \<noteq> None \<longrightarrow>
         index_applicable mc w (int (length (segments w)) - 1) r = Inr False)) \<and>
   (0 \<le> i \<and> i < int (length (segments w)) \<longrightarrow>
      index_applicable_with checked_subscript mc w i r = index_applicable mc w i r \<and>
      index_applicable mc w i r \<noteq> Inl IndexError)"
proof -
  have never_before: "before r \<noteq> None \<longrightarrow> index_applicable mc w 0 r \<noteq> Inr True"
    by (simp add: index_applicable_def before_exit)
  have never_after: "after r \<noteq> None \<longrightarrow>
      index_applicable mc w (int (length (segments w)) - 1) r \<noteq> Inr True"
    by (simp add: index_applicable_def after_exit)
  have returns: "\<exists>b. index_applicable mc w j r = Inr b"
    if "conditions r \<noteq> None" "0 \<le> j" "j < int (length (segments w))" for j
    using that by (auto simp: index_applicable_in_range)
  have at_start: "before r \<noteq> None \<longrightarrow> index_applicable mc w 0 r = Inr False"
    if "conditions r \<noteq> None" "segments w \<noteq> []"
    using never_before returns [of 0] that by (metis (full_types) length_greater_0_conv
        of_nat_0_less_iff order_refl)
  have at_end: "after r \<noteq> None \<longrightarrow>
      index_applicable mc w (int (length (segments w)) - 1) r = Inr False"
    if "conditions r \<noteq> None" "segments w \<noteq> []"
  proof -
    have "0 \<le> int (length (segments w)) - 1" "int (length (segments w)) - 1 < int (length (segments w))"
      using that(2) by (simp_all add: Suc_le_eq)
    then show ?thesis
      using never_after returns [of "int (length (segments w)) - 1"] that(1)
      by (metis (full_types))
  qed
  have bounded: "index_applicable_with checked_subscript mc w i r = index_applicable mc w i r \<and>
      index_applicable mc w i r \<noteq> Inl IndexError"
    if i: "0 \<le> i" "i < int (length (segments w))"
  proof (cases "conditions r")
    case None
    then show ?thesis
      using i
      by (simp add: index_applicable_def index_applicable_with_no_conditions
          subscript_in_range checked_subscript_in_range)
  next
    case (Some c)
    then show ?thesis
      using i by (simp add: index_applicable_in_range index_applicable_checked)
  qed
  show ?thesis
    using never_before never_after at_start at_end bounded by blast
qed

theorem context_boundary_witness:
  "before intervocalic_voicing \<noteq> None \<and> after intervocalic_voicing \<noteq> None \<and>
   conditions intervocalic_voicing \<noteq> None \<and> segments three_segments \<noteq> [] \<and>
   index_applicable meets_conditions three_segments 0 intervocalic_voicing = Inr False \<and>
   index_applicable meets_conditions three_segments
     (int (length (segments three_segments)) - 1) intervocalic_voicing = Inr False \<and>
   (0::int) \<le> 1 \<and> 1 < int (length (segments three_segments)) \<and>
   index_applicable_with checked_subscript meets_conditions three_segments 1
     intervocalic_voicing = Inr True \<and>
   index_applicable meets_conditions three_segments 1 intervocalic_voicing = Inr True"
proof -
  have run: "index_applicable meets_conditions three_segments 1 intervocalic_voicing = Inr True"
    by (simp add: scenario_defs engine_defs)
  have shape: "before intervocalic_voicing \<noteq> None \<and> after intervocalic_voicing \<noteq> None \<and>
     conditions intervocalic_voicing \<noteq> None \<and> segments three_segments \<noteq> [] \<and>
     (0::int) \<le> 1 \<and> 1 < int (length (segments three_segments))"
    by (simp add: scenario_defs)
  show ?thesis
    using context_boundary [of intervocalic_voicing meets_conditions three_segments 1]
      shape run
    by simp
qed

text \<open>
  C8. For a rule with the key \<^verbatim>\<open>conditions\<close>, \<^verbatim>\<open>applicable\<close> returns true exactly
  when \<^verbatim>\<open>index_applicable\<close> is true at some index of the word; on the empty word it
  returns false for every rule.
\<close>

theorem applicable_iff_some_index:
  "(conditions r \<noteq> None \<longrightarrow>
      applicable mc w r =
        Inr (\<exists>i < length (segments w). index_applicable mc w (int i) r = Inr True)) \<and>
   (segments w = [] \<longrightarrow> applicable mc w r = Inr False)"
proof -
  have scan: "applicable mc w r =
        Inr (\<exists>i < length (segments w). index_applicable mc w (int i) r = Inr True)"
    if "conditions r \<noteq> None"
  proof -
    from that obtain c where c: "conditions r = Some c"
      by auto
    have "\<forall>i \<in> set [0..<length (segments w)]. \<exists>b. index_applicable mc w (int i) r = Inr b"
      using index_applicable_returns [OF c] by simp
    then have "applicable mc w r =
        Inr (\<exists>i \<in> set [0..<length (segments w)]. matched mc w r i)"
      unfolding applicable_def by (rule any_index_applicable_exists)
    then show ?thesis
      by (simp add: matched_def Bex_def)
  qed
  have empty: "applicable mc w r = Inr False" if "segments w = []"
    using that by (simp add: applicable_def)
  show ?thesis
    using scan empty by blast
qed

theorem applicable_iff_some_index_witness:
  "conditions devoicing \<noteq> None \<and>
   applicable meets_conditions two_segments devoicing = Inr True \<and>
   index_applicable meets_conditions two_segments (int 0) devoicing = Inr True \<and>
   conditions last_voiced \<noteq> None \<and>
   applicable meets_conditions two_segments last_voiced = Inr False \<and>
   segments empty_word = [] \<and>
   applicable meets_conditions empty_word no_conditions = Inr False"
proof -
  have c: "conditions devoicing \<noteq> None" "conditions last_voiced \<noteq> None"
    by (simp_all add: scenario_defs)
  have e: "segments empty_word = []"
    by (simp add: scenario_defs)
  have at0: "index_applicable meets_conditions two_segments (int 0) devoicing = Inr True"
    by (simp add: scenario_defs engine_defs)
  have none: "\<not> (\<exists>i < length (segments two_segments).
        index_applicable meets_conditions two_segments (int i) last_voiced = Inr True)"
    by (simp add: scenario_defs engine_defs less_Suc_eq)
  have some: "\<exists>i < length (segments two_segments).
        index_applicable meets_conditions two_segments (int i) devoicing = Inr True"
    using at0 by (intro exI [of _ 0]) (simp add: two_segments_def)
  show ?thesis
    using applicable_iff_some_index [of devoicing meets_conditions two_segments]
      applicable_iff_some_index [of last_voiced meets_conditions two_segments]
      applicable_iff_some_index [of no_conditions meets_conditions empty_word]
      c e at0 none some
    by simp
qed

text \<open>
  C9. On a non-empty word, \<^verbatim>\<open>index_applicable\<close> at any index Python accepts, and hence
  \<^verbatim>\<open>applicable\<close>, raise \<^verbatim>\<open>KeyError\<close> for a rule without the key \<^verbatim>\<open>conditions\<close>; at
  no index at all does \<^verbatim>\<open>index_applicable\<close> return a value for such a rule.
  \<^verbatim>\<open>apply_rule\<close> raises \<^verbatim>\<open>KeyError\<close> for a rule without the key \<^verbatim>\<open>applies\<close>. The
  fault is the result; no default value is returned.
\<close>

theorem malformed_rule_faults:
  "(conditions r = None \<longrightarrow>
      (- int (length (segments w)) \<le> i \<and> i < int (length (segments w)) \<longrightarrow>
         index_applicable mc w i r = Inl (KeyError ''conditions'')) \<and>
      (\<exists>e. index_applicable mc w i r = Inl e) \<and>
      (segments w \<noteq> [] \<longrightarrow> applicable mc w r = Inl (KeyError ''conditions''))) \<and>
   (applies r = None \<longrightarrow> apply_rule mc cmb w r = Inl (KeyError ''applies''))"
proof -
  have at: "index_applicable mc w j r = Inl (KeyError ''conditions'')"
    if none: "conditions r = None"
      and j: "- int (length (segments w)) \<le> j" "j < int (length (segments w))"
    for j
  proof -
    obtain s where "subscript (segments w) j = Inr s"
      using subscript_wraps j by blast
    then show ?thesis
      using none by (simp add: index_applicable_def index_applicable_with_no_conditions)
  qed
  have always: "\<exists>e. index_applicable mc w i r = Inl e" if "conditions r = None"
    using that
    by (simp add: index_applicable_def index_applicable_with_no_conditions split: sum.splits)
  have scan: "applicable mc w r = Inl (KeyError ''conditions'')"
    if "conditions r = None" "segments w \<noteq> []"
  proof -
    have "index_applicable mc w (int 0) r = Inl (KeyError ''conditions'')"
      using that by (intro at) simp_all
    moreover have "[0..<length (segments w)] = 0 # [1..<length (segments w)]"
      using that(2) by (simp add: upt_conv_Cons)
    ultimately show ?thesis
      by (simp add: applicable_def)
  qed
  have rewrite: "apply_rule mc cmb w r = Inl (KeyError ''applies'')" if "applies r = None"
    using that by (simp add: apply_rule_def)
  show ?thesis
    using at [of i] always scan rewrite by blast
qed

theorem malformed_rule_faults_witness:
  "conditions no_conditions = None \<and> segments two_segments \<noteq> [] \<and>
   - int (length (segments two_segments)) \<le> 1 \<and> 1 < int (length (segments two_segments)) \<and>
   index_applicable meets_conditions two_segments 1 no_conditions =
     Inl (KeyError ''conditions'') \<and>
   applicable meets_conditions two_segments no_conditions = Inl (KeyError ''conditions'') \<and>
   applies no_applies = None \<and>
   apply_rule meets_conditions combine two_segments no_applies = Inl (KeyError ''applies'')"
proof -
  have shape: "conditions no_conditions = None \<and> segments two_segments \<noteq> [] \<and>
     - int (length (segments two_segments)) \<le> 1 \<and> 1 < int (length (segments two_segments)) \<and>
     applies no_applies = None"
    by (simp add: scenario_defs)
  show ?thesis
    using malformed_rule_faults [of no_conditions two_segments 1 meets_conditions]
      malformed_rule_faults [of no_applies two_segments 1 meets_conditions combine]
      shape
    by simp
qed

text \<open>
  C10. For a rule without \<^verbatim>\<open>deletion\<close> in the positive list of \<^verbatim>\<open>applies\<close>,
  \<^verbatim>\<open>apply_rule\<close> returns a word of the same length as the receiver: position by
  position, the combined segment where the rule matches and the original segment where
  it does not.
\<close>

theorem merge_preserves_length:
  assumes "conditions r = Some c" and "applies r = Some ap" and "\<not> is_deletion ap"
  shows "\<exists>w'. apply_rule mc cmb w r = Inr w' \<and>
              length (segments w') = length (segments w) \<and>
              (\<forall>i < length (segments w).
                 segments w' ! i =
                   (if index_applicable mc w (int i) r = Inr True
                    then cmb (segments w ! i) (transformation_segment ap)
                    else segments w ! i))"
proof -
  have "apply_rule mc cmb w r = Inr (apply_rule_spec mc cmb w r ap)"
    using assms(1,2) by (rule apply_rule_refines)
  moreover have "segments (apply_rule_spec mc cmb w r ap) =
      map (\<lambda>i. if matched mc w r i then cmb (segments w ! i) (transformation_segment ap)
                else segments w ! i) [0..<length (segments w)]"
    using assms(3) by (simp add: apply_rule_spec_def contributions_merge)
  ultimately show ?thesis
    by (simp add: matched_def)
qed

theorem merge_preserves_length_witness:
  "conditions intervocalic_voicing = Some [''negative'' \<mapsto> [''voiced'']] \<and>
   applies intervocalic_voicing = Some [''positive'' \<mapsto> [''voiced'']] \<and>
   \<not> is_deletion [''positive'' \<mapsto> [''voiced'']] \<and>
   apply_rule meets_conditions combine three_segments intervocalic_voicing =
     Inr \<lparr>segments = [voiced, voiced, voiced]\<rparr> \<and>
   (\<exists>w'. apply_rule meets_conditions combine three_segments intervocalic_voicing = Inr w' \<and>
         length (segments w') = length (segments three_segments))"
proof -
  have c: "conditions intervocalic_voicing = Some [''negative'' \<mapsto> [''voiced'']]"
    by (simp add: scenario_defs)
  have ap: "applies intervocalic_voicing = Some [''positive'' \<mapsto> [''voiced'']]"
    by (simp add: scenario_defs)
  have d: "\<not> is_deletion [''positive'' \<mapsto> [''voiced'']]"
    by (simp add: is_deletion_def dict_get_def)
  have run: "apply_rule meets_conditions combine three_segments intervocalic_voicing =
     Inr \<lparr>segments = [voiced, voiced, voiced]\<rparr>"
    by (simp add: scenario_defs engine_defs upt_rec)
  show ?thesis
    using merge_preserves_length [OF c ap d, of meets_conditions combine three_segments]
      c ap d run
    by auto
qed

end
